theory Spec2Isabelle
  imports Complex_Main "HOL-Library.Log_Nat"
begin

section \<open>JavaScript numbers\<close>

text \<open>
  The engine of \<^verbatim>\<open>src/utils/finance.ts\<close> computes on JavaScript numbers, the 64-bit
  binary floating-point numbers of IEEE 754. A number is modelled as one of the two
  infinities, NaN, or a real; the reals that occur as results are the doubles, since
  every arithmetic operation rounds its exact result with \<open>to_double\<close>: to the nearest
  double, ties to the even significand, to an infinity from \<open>2^1024 - 2^970\<close> on, with
  the subnormal numbers below \<open>2^-1022\<close>. The two zeros are one value.
\<close>

datatype number = Num real | PInf | NInf | NaN

text \<open>The exponent \<open>e\<close> with \<open>2^e \<le> a < 2^(e+1)\<close>, for \<open>a > 0\<close>.\<close>

definition ilog2 :: "real \<Rightarrow> int" where
  "ilog2 a = (if 1 \<le> a then bitlen \<lfloor>a\<rfloor> - 1 else - bitlen (\<lceil>1 / a\<rceil> - 1))"

text \<open>Rounding to the nearest integer, a tie to the even one.\<close>

definition round_even :: "real \<Rightarrow> int" where
  "round_even n =
     (let f = \<lfloor>n\<rfloor>; d = n - of_int f
      in if d < 1 / 2 then f else if 1 / 2 < d then f + 1 else if even f then f else f + 1)"

text \<open>
  The distance of neighbouring doubles around \<open>a > 0\<close>: 52 binary places below the
  exponent, and \<open>2^-1074\<close> in the subnormal range.
\<close>

definition expo :: "real \<Rightarrow> int" where
  "expo a = max (ilog2 a) (- 1022)"

definition quantum :: "real \<Rightarrow> real" where
  "quantum a = 2 powi (expo a - 52)"

definition round_pos :: "real \<Rightarrow> real" where
  "round_pos a = of_int (round_even (a / quantum a)) * quantum a"

definition to_double :: "real \<Rightarrow> number" where
  "to_double x =
     (if x = 0 then Num 0
      else if 0 < x then (if 2 ^ 1024 \<le> round_pos x then PInf else Num (round_pos x))
      else (if 2 ^ 1024 \<le> round_pos (- x) then NInf else Num (- round_pos (- x))))"

text \<open>The reals that are doubles: rounding leaves them as they are.\<close>

definition is_double :: "real \<Rightarrow> bool" where
  "is_double x = (to_double x = Num x)"

fun num_neg :: "number \<Rightarrow> number" where
  "num_neg (Num a) = Num (- a)"
| "num_neg PInf = NInf"
| "num_neg NInf = PInf"
| "num_neg NaN = NaN"

fun num_add :: "number \<Rightarrow> number \<Rightarrow> number" where
  "num_add NaN y = NaN"
| "num_add x NaN = NaN"
| "num_add (Num a) (Num b) = to_double (a + b)"
| "num_add PInf NInf = NaN"
| "num_add NInf PInf = NaN"
| "num_add PInf y = PInf"
| "num_add NInf y = NInf"
| "num_add (Num a) y = y"

definition num_sub :: "number \<Rightarrow> number \<Rightarrow> number" where
  "num_sub x y = num_add x (num_neg y)"

text \<open>The sign of a number that is not NaN: \<open>-1\<close>, \<open>0\<close> or \<open>1\<close>.\<close>

fun num_sign :: "number \<Rightarrow> int" where
  "num_sign (Num a) = (if a < 0 then - 1 else if a = 0 then 0 else 1)"
| "num_sign PInf = 1"
| "num_sign NInf = - 1"
| "num_sign NaN = 0"

definition signed_inf :: "int \<Rightarrow> number" where
  "signed_inf s = (if s = 0 then NaN else if 0 < s then PInf else NInf)"

fun num_mul :: "number \<Rightarrow> number \<Rightarrow> number" where
  "num_mul NaN y = NaN"
| "num_mul x NaN = NaN"
| "num_mul (Num a) (Num b) = to_double (a * b)"
| "num_mul x y = signed_inf (num_sign x * num_sign y)"

text \<open>
  Division. The program divides by the constants 12 and 100 and by the difference
  \<open>pow - 1\<close>, which is the positive zero whenever it is zero; so a finite dividend
  over zero gets the dividend's sign, and \<open>0/0\<close> is NaN.
\<close>

fun num_div :: "number \<Rightarrow> number \<Rightarrow> number" where
  "num_div NaN y = NaN"
| "num_div x NaN = NaN"
| "num_div (Num a) (Num b) =
     (if b = 0 then signed_inf (num_sign (Num a)) else to_double (a / b))"
| "num_div (Num a) y = Num 0"
| "num_div x (Num b) = (if b < 0 then num_neg x else x)"
| "num_div x y = NaN"

text \<open>\<^verbatim>\<open>Math.max\<close> of two arguments: NaN if either is NaN.\<close>

fun num_max :: "number \<Rightarrow> number \<Rightarrow> number" where
  "num_max NaN y = NaN"
| "num_max x NaN = NaN"
| "num_max (Num a) (Num b) = Num (max a b)"
| "num_max PInf y = PInf"
| "num_max x PInf = PInf"
| "num_max NInf y = y"
| "num_max x NInf = x"

text \<open>
  \<^verbatim>\<open>Math.pow\<close> with a whole-number exponent (the exponent of the program is the
  number of months). The exponent 0 gives 1 for every base, NaN included. ECMAScript
  leaves the accuracy of \<^verbatim>\<open>Math.pow\<close> to the implementation; here it is the correctly
  rounded power, and the theorems below use it only where the power is exact
  (\<open>1^n = 1\<close>, \<open>2^12 = 4096\<close>).
\<close>

fun num_pow :: "number \<Rightarrow> int \<Rightarrow> number" where
  "num_pow (Num b) n =
     (if n = 0 then Num 1
      else if 0 < n then to_double (b ^ nat n)
      else if b = 0 then PInf
      else to_double (1 / b ^ nat (- n)))"
| "num_pow PInf n = (if n = 0 then Num 1 else if 0 < n then PInf else Num 0)"
| "num_pow NInf n =
     (if n = 0 then Num 1
      else if 0 < n then (if even n then PInf else NInf)
      else Num 0)"
| "num_pow NaN n = (if n = 0 then Num 1 else NaN)"

text \<open>
  Comparisons of numbers as a test would make them: NaN is equal to nothing and
  within tolerance of nothing.
\<close>

fun num_eq :: "number \<Rightarrow> number \<Rightarrow> bool" where
  "num_eq NaN y = False"
| "num_eq x NaN = False"
| "num_eq x y = (x = y)"

fun num_le :: "number \<Rightarrow> number \<Rightarrow> bool" where
  "num_le NaN y = False"
| "num_le x NaN = False"
| "num_le (Num a) (Num b) = (a \<le> b)"
| "num_le NInf y = True"
| "num_le x PInf = True"
| "num_le x y = False"

fun within_rel :: "real \<Rightarrow> number \<Rightarrow> number \<Rightarrow> bool" where
  "within_rel tol (Num a) (Num b) = (\<bar>a - b\<bar> \<le> tol * \<bar>b\<bar>)"
| "within_rel tol x y = False"

section \<open>Dates\<close>

text \<open>
  \<^verbatim>\<open>new Date(year, monthIndex)\<close> is the first day of a month in local time. A year from
  0 to 99 means 1900 + year, a month index outside 0..11 carries into the year, and a
  date outside the representable range (April 20, -271821 to September 13, 275760) is
  the invalid date, whose getters return NaN.
\<close>

datatype date = Date int int | InvalidDate

definition new_Date :: "int \<Rightarrow> int \<Rightarrow> date" where
  "new_Date y m =
     (let yr = (if 0 \<le> y \<and> y \<le> 99 then 1900 + y else y);
          ym = yr + m div 12;
          mn = m mod 12;
          idx = ym * 12 + mn
      in if (- 271821) * 12 + 4 \<le> idx \<and> idx \<le> 275760 * 12 + 8
         then Date ym mn else InvalidDate)"

fun getMonth :: "date \<Rightarrow> number" where
  "getMonth (Date y m) = Num (of_int m)"
| "getMonth InvalidDate = NaN"

fun getFullYear :: "date \<Rightarrow> number" where
  "getFullYear (Date y m) = Num (of_int y)"
| "getFullYear InvalidDate = NaN"

text \<open>
  \<^verbatim>\<open>generateSchedule\<close> reads the system clock twice, \<^verbatim>\<open>new Date().getFullYear()\<close> and
  then \<^verbatim>\<open>new Date().getMonth()\<close>. The two readings are the environment of the call.
\<close>

record clock =
  now_year :: int
  now_month :: int

section \<open>The types of the engine\<close>

record ScheduleEntry =
  month :: number
  year :: number
  emi :: number
  principal :: number
  interest :: number
  balance :: number

record LoanSummary =
  monthlyEmi :: number
  totalInterest :: number
  totalPayable :: number
  principalAmount :: number
  tenureMonths :: int

section \<open>calculateEMI\<close>

text \<open>
  The tenure is a whole number of years (the slider of \<^verbatim>\<open>App.tsx\<close> has step 1), so it is
  an \<open>int\<close> here, and \<open>tenureYears * 12\<close> and the loop counter are exact integers (as
  they are in the program for every tenure below \<open>2^53 / 12\<close> years); principal and rate
  are any numbers. The function has no \<^verbatim>\<open>throw\<close> and no check of its arguments: it
  returns a summary for every input.
\<close>

definition calculateEMI :: "number \<Rightarrow> number \<Rightarrow> int \<Rightarrow> LoanSummary" where
  "calculateEMI principal0 annualRate tenureYears =
     (let monthlyRate = num_div (num_div annualRate (Num 12)) (Num 100);
          tenureMonths0 = tenureYears * 12;
          emi0 = num_div
                   (num_mul (num_mul principal0 monthlyRate)
                      (num_pow (num_add (Num 1) monthlyRate) tenureMonths0))
                   (num_sub (num_pow (num_add (Num 1) monthlyRate) tenureMonths0) (Num 1));
          totalPayable0 = num_mul emi0 (to_double (of_int tenureMonths0));
          totalInterest0 = num_sub totalPayable0 principal0
      in \<lparr>monthlyEmi = emi0,
          totalInterest = totalInterest0,
          totalPayable = totalPayable0,
          principalAmount = principal0,
          tenureMonths = tenureMonths0\<rparr>)"

section \<open>generateSchedule\<close>

text \<open>
  The \<^verbatim>\<open>for\<close> loop, with its counter \<open>i\<close>, the running balance and the schedule built so
  far. It runs while \<open>i \<le> totalMonths\<close>.
\<close>

function schedule_loop ::
  "number \<Rightarrow> number \<Rightarrow> int \<Rightarrow> int \<Rightarrow> int \<Rightarrow> int \<Rightarrow> number \<Rightarrow> ScheduleEntry list
     \<Rightarrow> ScheduleEntry list" where
  "schedule_loop emi0 monthlyRate totalMonths startYear startMonth i balance0 schedule =
     (if i \<le> totalMonths then
        (let interest0 = num_mul balance0 monthlyRate;
             principalPaid = num_sub emi0 interest0;
             balance1 = num_max (Num 0) (num_sub balance0 principalPaid);
             date0 = new_Date startYear (startMonth + i)
         in schedule_loop emi0 monthlyRate totalMonths startYear startMonth (i + 1) balance1
              (schedule @
                 [\<lparr>month = num_add (getMonth date0) (Num 1),
                   year = getFullYear date0,
                   emi = emi0,
                   principal = principalPaid,
                   interest = interest0,
                   balance = balance1\<rparr>]))
      else schedule)"
  by pat_completeness auto
termination
  by (relation "measure (\<lambda>(e, r, n, sy, sm, i, b, s). nat (n + 1 - i))") auto

definition generateSchedule ::
  "clock \<Rightarrow> number \<Rightarrow> number \<Rightarrow> int \<Rightarrow> number \<Rightarrow> ScheduleEntry list" where
  "generateSchedule clk principal0 annualRate tenureYears emi0 =
     (let monthlyRate = num_div (num_div annualRate (Num 12)) (Num 100);
          totalMonths = tenureYears * 12;
          startYear = now_year clk;
          startMonth = now_month clk
      in schedule_loop emi0 monthlyRate totalMonths startYear startMonth 1 principal0 [])"


section \<open>The loop, period by period\<close>

text \<open>
  One turn of the loop takes the balance \<open>b\<close> to \<open>next_balance e r b\<close>; the balance
  after \<open>k\<close> turns and the entry pushed in period \<open>i\<close> are read off the loop body.
  \<open>schedule_loop_char\<close> below proves that the loop builds exactly these entries.
\<close>

definition next_balance :: "number \<Rightarrow> number \<Rightarrow> number \<Rightarrow> number" where
  "next_balance e r b = num_max (Num 0) (num_sub b (num_sub e (num_mul b r)))"

fun balance_after :: "number \<Rightarrow> number \<Rightarrow> number \<Rightarrow> nat \<Rightarrow> number" where
  "balance_after e r p 0 = p"
| "balance_after e r p (Suc k) = next_balance e r (balance_after e r p k)"

definition entry_at :: "number \<Rightarrow> number \<Rightarrow> int \<Rightarrow> int \<Rightarrow> number \<Rightarrow> int \<Rightarrow> ScheduleEntry" where
  "entry_at e r sy sm b i =
     \<lparr>month = num_add (getMonth (new_Date sy (sm + i))) (Num 1),
      year = getFullYear (new_Date sy (sm + i)),
      emi = e,
      principal = num_sub e (num_mul b r),
      interest = num_mul b r,
      balance = next_balance e r b\<rparr>"


text \<open>The sum of a list of numbers, added up from the first to the last.\<close>

definition num_sum :: "number list \<Rightarrow> number" where
  "num_sum xs = foldl num_add (Num 0) xs"

text \<open>
  A balance \<open>b\<close> whose interest the payment \<open>e\<close> covers: \<open>b\<close> is a double that is not
  negative, and the interest computed on it at the monthly rate \<open>r\<close> is at most \<open>e\<close>.
\<close>

definition paying :: "real \<Rightarrow> real \<Rightarrow> real \<Rightarrow> bool" where
  "paying e r b = (0 \<le> b \<and> is_double b \<and> num_le (to_double (b * r)) (Num e))"

section \<open>Properties of the loop\<close>

declare schedule_loop.simps [simp del]

lemma balance_after_shift:
  "balance_after e r (next_balance e r b) k = balance_after e r b (Suc k)"
  by (induction k) simp_all

lemma schedule_loop_char:
  "schedule_loop e r n sy sm i b s =
     s @ map (\<lambda>k. entry_at e r sy sm (balance_after e r b k) (i + int k)) [0..<nat (n + 1 - i)]"
proof (induction e r n sy sm i b s rule: schedule_loop.induct)
  case (1 e r n sy sm i b s)
  show ?case
  proof (cases "i \<le> n")
    case False
    then show ?thesis by (simp add: schedule_loop.simps)
  next
    case True
    define m where "m = nat (n - i)"
    have len: "nat (n + 1 - i) = Suc m" "nat (n + 1 - (i + 1)) = m"
      using True by (simp_all add: m_def)
    have up: "[0..<Suc m] = 0 # map Suc [0..<m]"
      by (simp add: upt_conv_Cons map_Suc_upt del: upt_Suc)
    have ih: "schedule_loop e r n sy sm (i + 1) (next_balance e r b)
                (s @ [entry_at e r sy sm b i]) =
              (s @ [entry_at e r sy sm b i]) @
                map (\<lambda>k. entry_at e r sy sm (balance_after e r (next_balance e r b) k)
                      (i + 1 + int k)) [0..<m]"
      using "1.IH" [OF True refl refl refl refl] len
      by (simp add: next_balance_def entry_at_def)
    have "schedule_loop e r n sy sm i b s =
            schedule_loop e r n sy sm (i + 1) (next_balance e r b)
              (s @ [entry_at e r sy sm b i])"
      using True
      by (subst schedule_loop.simps) (simp add: Let_def next_balance_def entry_at_def)
    also note ih
    finally show ?thesis
      unfolding len up
      by (simp add: balance_after_shift comp_def add.assoc del: balance_after.simps(2))
  qed
qed

lemma generateSchedule_char:
  "generateSchedule clk p ar t e =
     map (\<lambda>k. entry_at e (num_div (num_div ar (Num 12)) (Num 100)) (now_year clk) (now_month clk)
                 (balance_after e (num_div (num_div ar (Num 12)) (Num 100)) p k) (1 + int k))
       [0..<nat (t * 12)]"
  by (simp add: generateSchedule_def Let_def schedule_loop_char)

lemma generateSchedule_length: "length (generateSchedule clk p ar t e) = nat (t * 12)"
  by (simp add: generateSchedule_char)

lemma generateSchedule_nth:
  assumes "i < nat (t * 12)"
  shows "generateSchedule clk p ar t e ! i =
           entry_at e (num_div (num_div ar (Num 12)) (Num 100)) (now_year clk) (now_month clk)
             (balance_after e (num_div (num_div ar (Num 12)) (Num 100)) p i) (1 + int i)"
  using assms by (simp add: generateSchedule_char)


section \<open>Rounding to a double\<close>

lemma ilog2_bounds:
  assumes "0 < a"
  shows "2 powi ilog2 a \<le> a" and "a < 2 powi (ilog2 a + 1)"
proof -
  have "2 powi ilog2 a \<le> a \<and> a < 2 powi (ilog2 a + 1)"
  proof (cases "1 \<le> a")
    case True
    then have fpos: "0 < \<lfloor>a\<rfloor>" by simp
    define k where "k = bitlen \<lfloor>a\<rfloor>"
    have k1: "1 \<le> k" using fpos by (simp add: k_def bitlen_alt_def)
    from bitlen_bounds [OF fpos]
    have lo: "2 ^ nat (k - 1) \<le> \<lfloor>a\<rfloor>" and hi: "\<lfloor>a\<rfloor> < 2 ^ nat k"
      by (simp_all add: k_def)
    have "(2::real) ^ nat (k - 1) = of_int (2 ^ nat (k - 1))" by simp
    also have "\<dots> \<le> of_int \<lfloor>a\<rfloor>" using lo by (simp only: of_int_le_iff)
    also have "\<dots> \<le> a" by simp
    finally have A: "(2::real) ^ nat (k - 1) \<le> a" .
    have hi': "\<lfloor>a\<rfloor> + 1 \<le> 2 ^ nat k" using hi by simp
    have "a < of_int (\<lfloor>a\<rfloor> + 1)" by linarith
    also have "(of_int (\<lfloor>a\<rfloor> + 1) :: real) \<le> of_int (2 ^ nat k)"
      using hi' by (simp only: of_int_le_iff)
    also have "(of_int (2 ^ nat k) :: real) = 2 ^ nat k" by simp
    finally have B: "a < (2::real) ^ nat k" .
    have e: "ilog2 a = k - 1" using True by (simp add: ilog2_def k_def)
    show ?thesis
      using A B k1 unfolding e by (simp add: power_int_def)
  next
    case False
    then have a1: "a < 1" by simp
    define c where "c = \<lceil>1 / a\<rceil>"
    have t1: "1 < 1 / a" using assms a1 by simp
    then have c2: "2 \<le> c" unfolding c_def by linarith
    then have cpos: "0 < c - 1" by simp
    define k where "k = bitlen (c - 1)"
    have k1: "1 \<le> k" using cpos by (simp add: k_def bitlen_alt_def)
    from bitlen_bounds [OF cpos]
    have lo: "2 ^ nat (k - 1) \<le> c - 1" and hi: "c - 1 < 2 ^ nat k"
      by (simp_all add: k_def)
    have "1 / a \<le> of_int c" unfolding c_def by linarith
    also have "c \<le> 2 ^ nat k" using hi by simp
    then have "(of_int c :: real) \<le> of_int (2 ^ nat k)" by (simp only: of_int_le_iff)
    finally have up: "1 / a \<le> 2 ^ nat k" by simp
    have "(of_int (2 ^ nat (k - 1)) :: real) \<le> of_int (c - 1)"
      using lo by (simp only: of_int_le_iff)
    also have "(of_int (c - 1) :: real) < 1 / a" unfolding c_def by linarith
    finally have dn: "2 ^ nat (k - 1) < 1 / a" by simp
    have A: "1 / 2 ^ nat k \<le> a"
      using up assms by (simp add: field_simps)
    have B: "a < 1 / 2 ^ nat (k - 1)"
      using dn assms by (simp add: field_simps)
    have e: "ilog2 a = - k" using False by (simp add: ilog2_def k_def c_def)
    have p1: "(2::real) powi (- k) = 1 / 2 ^ nat k"
      using k1 by (simp add: power_int_def power_one_over)
    have p2: "(2::real) powi (- k + 1) = 1 / 2 ^ nat (k - 1)"
    proof (cases "k = 1")
      case True
      then show ?thesis by simp
    next
      case False
      with k1 have "- k + 1 < 0" by simp
      moreover have "nat (- (- k + 1)) = nat (k - 1)" by simp
      ultimately show ?thesis by (simp add: power_int_def power_one_over)
    qed
    show ?thesis unfolding e p1 p2 using A B by simp
  qed
  then show "2 powi ilog2 a \<le> a" and "a < 2 powi (ilog2 a + 1)" by simp_all
qed

lemma ilog2_unique:
  assumes "2 powi k \<le> a" "a < 2 powi (k + 1)"
  shows "ilog2 a = k"
proof -
  have a: "0 < a" using assms(1) by (rule less_le_trans [rotated]) simp
  note b = ilog2_bounds [OF a]
  have lt1: "2 powi k < (2::real) powi (ilog2 a + 1)" using assms(1) b(2) by simp
  have 1: "k < ilog2 a + 1"
  proof (rule ccontr)
    assume "\<not> k < ilog2 a + 1"
    then have "ilog2 a + 1 \<le> k" by simp
    then have "(2::real) powi (ilog2 a + 1) \<le> 2 powi k"
      by (rule power_int_increasing) simp
    with lt1 show False by simp
  qed
  have lt2: "2 powi ilog2 a < (2::real) powi (k + 1)" using assms(2) b(1) by simp
  have 2: "ilog2 a < k + 1"
  proof (rule ccontr)
    assume "\<not> ilog2 a < k + 1"
    then have "k + 1 \<le> ilog2 a" by simp
    then have "(2::real) powi (k + 1) \<le> 2 powi ilog2 a"
      by (rule power_int_increasing) simp
    with lt2 show False by simp
  qed
  from 1 2 show ?thesis by simp
qed

lemma round_even_of_int: "round_even (of_int m) = m"
  by (simp add: round_even_def)

lemma round_even_bounds: "\<lfloor>n\<rfloor> \<le> round_even n \<and> round_even n \<le> \<lfloor>n\<rfloor> + 1"
  by (simp add: round_even_def Let_def)

lemma round_even_mono:
  assumes "n \<le> n'"
  shows "round_even n \<le> round_even n'"
proof (cases "\<lfloor>n\<rfloor> = \<lfloor>n'\<rfloor>")
  case True
  then show ?thesis
    using assms by (auto simp: round_even_def Let_def)
next
  case False
  with assms have "\<lfloor>n\<rfloor> < \<lfloor>n'\<rfloor>" by (simp add: floor_mono order.strict_iff_order)
  then have "\<lfloor>n\<rfloor> + 1 \<le> \<lfloor>n'\<rfloor>" by simp
  with round_even_bounds [of n] round_even_bounds [of n'] show ?thesis by linarith
qed

lemma round_even_le_int:
  assumes "n \<le> of_int K"
  shows "round_even n \<le> K"
  using round_even_mono [OF assms] by (simp add: round_even_of_int)

lemma round_even_ge_int:
  assumes "of_int K \<le> n"
  shows "K \<le> round_even n"
  using round_even_mono [OF assms] by (simp add: round_even_of_int)

lemma quantum_expo: "quantum a = 2 powi (expo a - 52)"
  by (simp add: quantum_def)

lemma quantum_pos: "0 < quantum a"
  by (simp add: quantum_def)

lemma ilog2_mono:
  assumes "0 < a" "a \<le> b"
  shows "ilog2 a \<le> ilog2 b"
proof (rule ccontr)
  assume "\<not> ilog2 a \<le> ilog2 b"
  then have "ilog2 b + 1 \<le> ilog2 a" by simp
  then have "(2::real) powi (ilog2 b + 1) \<le> 2 powi ilog2 a"
    by (rule power_int_increasing) simp
  also have "\<dots> \<le> a" using assms(1) by (rule ilog2_bounds)
  also note assms(2)
  finally have "2 powi (ilog2 b + 1) \<le> b" .
  moreover have "b < 2 powi (ilog2 b + 1)"
    using assms by (intro ilog2_bounds) simp
  ultimately show False by simp
qed

lemma expo_mono: "0 < a \<Longrightarrow> a \<le> b \<Longrightarrow> expo a \<le> expo b"
  using ilog2_mono [of a b] by (simp add: expo_def)

lemma below_next_binade:
  assumes "0 < a"
  shows "a < 2 powi (expo a + 1)"
proof -
  have "a < 2 powi (ilog2 a + 1)" using assms by (rule ilog2_bounds)
  also have "(2::real) powi (ilog2 a + 1) \<le> 2 powi (expo a + 1)"
    by (rule power_int_increasing) (simp_all add: expo_def)
  finally show ?thesis .
qed

lemma powi_split: "(2::real) powi (e + 1) = 2 ^ 53 * 2 powi (e - 52)"
proof -
  have "(2::real) powi (53 + (e - 52)) = 2 powi 53 * 2 powi (e - 52)"
    by (rule power_int_add) simp
  moreover have "53 + (e - 52) = e + 1" by simp
  ultimately have "(2::real) powi (e + 1) = 2 powi 53 * 2 powi (e - 52)" by (simp only:)
  then show ?thesis by simp
qed

lemma powi_split2: "(2::real) powi e = 2 ^ 52 * 2 powi (e - 52)"
proof -
  have "(2::real) powi (52 + (e - 52)) = 2 powi 52 * 2 powi (e - 52)"
    by (rule power_int_add) simp
  moreover have "52 + (e - 52) = e" by simp
  ultimately have "(2::real) powi e = 2 powi 52 * 2 powi (e - 52)" by (simp only:)
  then show ?thesis by simp
qed

lemma round_pos_nonneg:
  assumes "0 < a"
  shows "0 \<le> round_pos a"
proof -
  have "0 \<le> a / quantum a" using assms quantum_pos [of a] by simp
  then have "of_int 0 \<le> a / quantum a" by simp
  then have "0 \<le> round_even (a / quantum a)" by (rule round_even_ge_int)
  then show ?thesis using quantum_pos [of a] by (simp add: round_pos_def)
qed

lemma round_pos_upper:
  assumes "0 < a"
  shows "round_pos a \<le> 2 powi (expo a + 1)"
proof -
  have "a \<le> 2 ^ 53 * quantum a"
    using below_next_binade [OF assms] unfolding powi_split quantum_expo by simp
  then have "a / quantum a \<le> 2 ^ 53"
    using quantum_pos [of a] by (simp add: field_simps)
  then have "a / quantum a \<le> of_int (2 ^ 53)" by simp
  then have "round_even (a / quantum a) \<le> 2 ^ 53" by (rule round_even_le_int)
  then have "(of_int (round_even (a / quantum a)) :: real) \<le> of_int (2 ^ 53)"
    by (simp only: of_int_le_iff)
  then have "of_int (round_even (a / quantum a)) * quantum a \<le> 2 ^ 53 * quantum a"
    using quantum_pos [of a] by (intro mult_right_mono) simp_all
  then show ?thesis unfolding round_pos_def powi_split quantum_expo .
qed

lemma round_pos_lower:
  assumes "0 < a" "- 1022 \<le> ilog2 a"
  shows "2 powi expo a \<le> round_pos a"
proof -
  have e: "expo a = ilog2 a" using assms(2) by (simp add: expo_def)
  have "2 powi expo a \<le> a" unfolding e using assms(1) by (rule ilog2_bounds)
  then have "2 ^ 52 * quantum a \<le> a" unfolding quantum_expo by (subst (asm) powi_split2)
  then have "2 ^ 52 \<le> a / quantum a"
    using quantum_pos [of a] by (simp add: field_simps)
  then have "of_int (2 ^ 52) \<le> a / quantum a" by simp
  then have "2 ^ 52 \<le> round_even (a / quantum a)" by (rule round_even_ge_int)
  then have "(of_int (2 ^ 52) :: real) \<le> of_int (round_even (a / quantum a))"
    by (simp only: of_int_le_iff)
  then have "2 ^ 52 * quantum a \<le> of_int (round_even (a / quantum a)) * quantum a"
    using quantum_pos [of a] by (intro mult_right_mono) simp_all
  then show ?thesis
    unfolding round_pos_def by (subst powi_split2) (simp only: quantum_expo)
qed

lemma round_pos_mono:
  assumes "0 < a" "a \<le> b"
  shows "round_pos a \<le> round_pos b"
proof -
  have b: "0 < b" using assms by simp
  have le: "expo a \<le> expo b" using assms by (rule expo_mono)
  show ?thesis
  proof (cases "expo a = expo b")
    case True
    then have q: "quantum b = quantum a" by (simp add: quantum_expo)
    have "a / quantum a \<le> b / quantum a"
      using assms(2) quantum_pos [of a] by (simp add: divide_right_mono)
    then have "round_even (a / quantum a) \<le> round_even (b / quantum a)"
      by (rule round_even_mono)
    then have "(of_int (round_even (a / quantum a)) :: real) \<le> of_int (round_even (b / quantum a))"
      by (simp only: of_int_le_iff)
    then show ?thesis
      unfolding round_pos_def q using quantum_pos [of a] by (intro mult_right_mono) simp_all
  next
    case False
    with le have lt: "expo a + 1 \<le> expo b" by simp
    then have "- 1022 < expo b" by (simp add: expo_def)
    then have ib: "- 1022 \<le> ilog2 b" by (simp add: expo_def split: if_splits)
    have "round_pos a \<le> 2 powi (expo a + 1)" using assms(1) by (rule round_pos_upper)
    also have "(2::real) powi (expo a + 1) \<le> 2 powi expo b"
      using lt by (rule power_int_increasing) simp
    also have "\<dots> \<le> round_pos b" using b ib by (rule round_pos_lower)
    finally show ?thesis .
  qed
qed

lemma to_double_zero: "to_double 0 = Num 0"
  by (simp add: to_double_def)

lemma to_double_nonneg:
  assumes "0 \<le> x"
  shows "num_le (Num 0) (to_double x)"
  using assms round_pos_nonneg [of x] by (simp add: to_double_def)

lemma to_double_nonpos:
  assumes "x \<le> 0"
  shows "num_le (to_double x) (Num 0)"
  using assms round_pos_nonneg [of "- x"] by (simp add: to_double_def)

lemma num_le_trans: "num_le x y \<Longrightarrow> num_le y z \<Longrightarrow> num_le x z"
  by (cases x; cases y; cases z) simp_all

lemma to_double_mono:
  assumes "x \<le> y"
  shows "num_le (to_double x) (to_double y)"
proof -
  consider "0 < x" | "y < 0" | "x \<le> 0" "0 \<le> y" using assms by linarith
  then show ?thesis
  proof cases
    case 1
    then have y: "0 < y" using assms by simp
    have "round_pos x \<le> round_pos y" using 1 assms by (rule round_pos_mono)
    then show ?thesis using 1 y by (simp add: to_double_def)
  next
    case 2
    then have x: "x < 0" using assms by simp
    have "round_pos (- y) \<le> round_pos (- x)"
      using 2 assms by (intro round_pos_mono) simp_all
    then show ?thesis using 2 x by (simp add: to_double_def)
  next
    case 3
    from to_double_nonpos [OF 3(1)] to_double_nonneg [OF 3(2)]
    show ?thesis by (rule num_le_trans)
  qed
qed

lemma round_pos_exact:
  assumes m: "0 < m" "m < 2 ^ 53" and k: "- 1074 \<le> k"
  shows "round_pos (of_int m * 2 powi k) = of_int m * 2 powi k"
proof -
  define a :: real where "a = of_int m * 2 powi k"
  have a: "0 < a" using m(1) by (simp add: a_def)
  have "of_int m < (of_int (2 ^ 53) :: real)" using m(2) by (simp only: of_int_less_iff)
  then have "a < 2 ^ 53 * 2 powi k"
    unfolding a_def by (intro mult_strict_right_mono) simp_all
  also have "\<dots> = 2 powi (k + 53)"
  proof -
    have "(2::real) powi (53 + k) = 2 powi 53 * 2 powi k" by (rule power_int_add) simp
    moreover have "53 + k = k + 53" by simp
    ultimately show ?thesis by simp
  qed
  finally have up: "a < 2 powi (k + 53)" .
  have "2 powi ilog2 a \<le> a" using a by (rule ilog2_bounds)
  with up have lt: "(2::real) powi ilog2 a < 2 powi (k + 53)" by simp
  have "ilog2 a < k + 53"
  proof (rule ccontr)
    assume "\<not> ilog2 a < k + 53"
    then have "k + 53 \<le> ilog2 a" by simp
    then have "(2::real) powi (k + 53) \<le> 2 powi ilog2 a"
      by (rule power_int_increasing) simp
    with lt show False by simp
  qed
  with k have ek: "expo a - 52 \<le> k" by (simp add: expo_def)
  define j where "j = nat (k - (expo a - 52))"
  have kj: "k = (expo a - 52) + int j" using ek by (simp add: j_def)
  have "(2::real) powi k = 2 powi ((expo a - 52) + int j)"
    using kj by (rule arg_cong)
  also have "\<dots> = 2 powi (expo a - 52) * 2 powi int j"
    by (rule power_int_add) simp
  also have "\<dots> = quantum a * 2 ^ j"
    by (simp only: quantum_expo power_int_of_nat)
  finally have pk: "(2::real) powi k = quantum a * 2 ^ j" .
  have "of_int m * (2::real) powi k = of_int m * (quantum a * 2 ^ j)"
    using pk by (rule arg_cong)
  then have am: "a = of_int (m * 2 ^ j) * quantum a"
    by (simp add: a_def [symmetric] mult.commute mult.left_commute)
  define M where "M = m * 2 ^ j"
  have "a / quantum a = of_int M"
    using am quantum_pos [of a] by (simp add: M_def [symmetric] field_simps)
  then have "round_even (a / quantum a) = M"
    by (simp only: round_even_of_int)
  then have "round_pos a = of_int M * quantum a" by (simp only: round_pos_def)
  also have "\<dots> = a" using am by (simp only: M_def)
  finally show ?thesis unfolding a_def .
qed

lemma to_double_exact:
  assumes "\<bar>m\<bar> < 2 ^ 53" "- 1074 \<le> k" "k \<le> 971"
  shows "to_double (of_int m * 2 powi k) = Num (of_int m * 2 powi k)"
proof -
  have bound: "of_int n * 2 powi k < (2::real) ^ 1024" if "0 < n" "n < 2 ^ 53" for n :: int
  proof -
    have "of_int n < (of_int (2 ^ 53) :: real)" using that(2) by (simp only: of_int_less_iff)
    then have "of_int n * 2 powi k < (2::real) ^ 53 * 2 powi k"
      by (intro mult_strict_right_mono) simp_all
    also have "(2::real) powi k \<le> 2 powi 971"
      using assms(3) by (rule power_int_increasing) simp
    then have "(2::real) ^ 53 * 2 powi k \<le> 2 ^ 53 * 2 powi 971"
      by (intro mult_left_mono) simp_all
    also have "\<dots> = 2 ^ 1024" by simp
    finally show ?thesis .
  qed
  consider "m = 0" | "0 < m" | "m < 0" by linarith
  then show ?thesis
  proof cases
    case 1
    then show ?thesis by (simp add: to_double_def)
  next
    case 2
    with assms(1) have m: "m < 2 ^ 53" by simp
    have pos: "0 < of_int m * (2::real) powi k" using 2 by simp
    show ?thesis
      using pos bound [OF 2 m] round_pos_exact [OF 2 m assms(2)]
      by (simp add: to_double_def)
  next
    case 3
    then have n: "0 < - m" by simp
    with assms(1) have m: "- m < 2 ^ 53" by simp
    have neg: "of_int m * (2::real) powi k < 0" using 3 by (simp add: mult_neg_pos)
    have eq: "- (of_int m * (2::real) powi k) = of_int (- m) * 2 powi k" by simp
    show ?thesis
      using neg bound [OF n m] round_pos_exact [OF n m assms(2)]
      unfolding to_double_def eq by simp
  qed
qed

lemma to_double_int:
  assumes "\<bar>m\<bar> < 2 ^ 53"
  shows "to_double (of_int m) = Num (of_int m)"
  using to_double_exact [OF assms, of 0] by simp

lemma round_even_quot_bounds:
  assumes "0 < a"
  shows "0 \<le> round_even (a / quantum a)" and "round_even (a / quantum a) \<le> 2 ^ 53"
proof -
  have "0 \<le> a / quantum a" using assms quantum_pos [of a] by simp
  then have "of_int 0 \<le> a / quantum a" by simp
  then show "0 \<le> round_even (a / quantum a)" by (rule round_even_ge_int)
  have "a \<le> 2 ^ 53 * quantum a"
    using below_next_binade [OF assms] unfolding powi_split quantum_expo by simp
  then have "a / quantum a \<le> 2 ^ 53"
    using quantum_pos [of a] by (simp add: field_simps)
  then have "a / quantum a \<le> of_int (2 ^ 53)" by simp
  then show "round_even (a / quantum a) \<le> 2 ^ 53" by (rule round_even_le_int)
qed

lemma round_pos_is_double:
  assumes a: "0 < a" and fin: "round_pos a < 2 ^ 1024"
  shows "to_double (round_pos a) = Num (round_pos a)"
proof -
  define R where "R = round_even (a / quantum a)"
  have R: "0 \<le> R" "R \<le> 2 ^ 53" using round_even_quot_bounds [OF a] by (simp_all add: R_def)
  have rp: "round_pos a = of_int R * 2 powi (expo a - 52)"
    by (simp add: round_pos_def R_def quantum_expo)
  have lo: "- 1022 \<le> expo a" by (simp add: expo_def)
  show ?thesis
  proof (cases "R = 2 ^ 53")
    case False
    with R have Rlt: "\<bar>R\<bar> < 2 ^ 53" by simp
    have hi: "expo a - 52 \<le> 971"
    proof (rule ccontr)
      assume "\<not> expo a - 52 \<le> 971"
      then have big: "1024 \<le> expo a" by simp
      then have "- 1022 \<le> ilog2 a" by (simp add: expo_def split: if_splits)
      with a have "2 powi expo a \<le> round_pos a" by (rule round_pos_lower)
      moreover have "(2::real) powi 1024 \<le> 2 powi expo a"
        using big by (rule power_int_increasing) simp
      ultimately show False using fin by simp
    qed
    show ?thesis
      unfolding rp using lo by (intro to_double_exact Rlt hi) simp
  next
    case True
    have "(2::real) powi (1 + (expo a - 52)) = 2 powi 1 * 2 powi (expo a - 52)"
      by (rule power_int_add) simp
    moreover have "1 + (expo a - 52) = expo a - 51" by simp
    ultimately have q2: "(2::real) powi (expo a - 51) = 2 * 2 powi (expo a - 52)" by simp
    have rp2: "round_pos a = of_int (2 ^ 52) * 2 powi (expo a - 51)"
      unfolding rp True q2 by simp
    have e1: "52 + (expo a - 51) = expo a + 1" by simp
    have "of_int (2 ^ 52) * (2::real) powi (expo a - 51) = 2 powi 52 * 2 powi (expo a - 51)"
      by simp
    also have "\<dots> = 2 powi (52 + (expo a - 51))"
      by (rule power_int_add [symmetric]) simp
    also have "\<dots> = 2 powi (expo a + 1)" by (simp only: e1)
    finally have "round_pos a = 2 powi (expo a + 1)" unfolding rp2 .
    with fin have lt: "(2::real) powi (expo a + 1) < 2 powi 1024" by simp
    have hi: "expo a - 51 \<le> 971"
    proof (rule ccontr)
      assume "\<not> expo a - 51 \<le> 971"
      then have "1024 \<le> expo a + 1" by simp
      then have "(2::real) powi 1024 \<le> 2 powi (expo a + 1)"
        by (rule power_int_increasing) simp
      with lt show False by simp
    qed
    show ?thesis
      unfolding rp2 using lo by (intro to_double_exact hi) simp_all
  qed
qed

lemma to_double_idem:
  assumes "to_double x = Num y"
  shows "to_double y = Num y"
proof -
  consider "x = 0" | "0 < x" | "x < 0" by linarith
  then show ?thesis
  proof cases
    case 1
    with assms show ?thesis by (simp add: to_double_def)
  next
    case 2
    with assms have y: "y = round_pos x" and fin: "round_pos x < 2 ^ 1024"
      by (simp_all add: to_double_def split: if_splits)
    show ?thesis unfolding y using 2 fin by (rule round_pos_is_double)
  next
    case 3
    then have n: "0 < - x" by simp
    from 3 assms have y: "y = - round_pos (- x)" and fin: "round_pos (- x) < 2 ^ 1024"
      by (simp_all add: to_double_def split: if_splits)
    have d: "to_double (round_pos (- x)) = Num (round_pos (- x))"
      using n fin by (rule round_pos_is_double)
    have nn: "0 \<le> round_pos (- x)" using n by (rule round_pos_nonneg)
    show ?thesis
    proof (cases "round_pos (- x) = 0")
      case True
      then show ?thesis by (simp add: y to_double_def)
    next
      case False
      with nn have pos: "0 < round_pos (- x)" by simp
      with d have "round_pos (round_pos (- x)) = round_pos (- x)"
        by (simp add: to_double_def split: if_splits)
      then show ?thesis
        unfolding y using pos fin by (simp add: to_double_def)
    qed
  qed
qed

lemma to_double_minus: "to_double (- x) = num_neg (to_double x)"
  by (simp add: to_double_def)

lemma to_double_eval:
  assumes "2 powi e \<le> a" "a < 2 powi (e + 1)" "- 1022 \<le> e"
    and "round_even (a / 2 powi (e - 52)) = m"
    and "of_int m * 2 powi (e - 52) < (2::real) ^ 1024"
  shows "to_double a = Num (of_int m * 2 powi (e - 52))"
proof -
  have a: "0 < a" using assms(1) by (rule less_le_trans [rotated]) simp
  have "ilog2 a = e" using assms(1,2) by (rule ilog2_unique)
  then have q: "quantum a = 2 powi (e - 52)" using assms(3) by (simp add: quantum_def expo_def)
  have "round_pos a = of_int m * 2 powi (e - 52)"
    by (simp add: round_pos_def q assms(4))
  then show ?thesis using a assms(5) by (simp add: to_double_def)
qed


lemma to_double_one: "to_double 1 = Num 1"
  using to_double_int [of 1] by simp

lemma to_double_numeral:
  assumes "(numeral n :: int) < 2 ^ 53"
  shows "to_double (numeral n) = Num (numeral n)"
  using to_double_int [of "numeral n"] assms by simp

lemma to_double_neg_numeral:
  assumes "(numeral n :: int) < 2 ^ 53"
  shows "to_double (- numeral n) = Num (- numeral n)"
  using to_double_int [of "- numeral n"] assms by simp

lemmas dbl_simps = to_double_zero to_double_one to_double_numeral to_double_neg_numeral

section \<open>Roundings at particular values\<close>

text \<open>
  The doubles nearest to the exact results that occur in the examples below, each by
  its exponent and its rounded significand.
\<close>

lemma dbl_emi_neg_principal: "to_double (- (327680 / 273)) = Num (- (5278944618163219 / 4398046511104))"
proof -
  have pos: "to_double (327680 / 273) = Num (5278944618163219 / 4398046511104)"
  proof -
    have "to_double (327680 / 273) = Num (of_int 5278944618163219 * 2 powi (10 - 52))"
      by (rule to_double_eval) (simp_all add: round_even_def power_int_minus field_simps)
    then show ?thesis by (simp add: power_int_minus field_simps)
  qed
  show ?thesis using to_double_minus [of "327680 / 273"] pos by simp
qed

lemma dbl_payable_neg_principal: "to_double (- (15836833854489657 / 1099511627776)) = Num (- (1979604231811207 / 137438953472))"
proof -
  have pos: "to_double (15836833854489657 / 1099511627776) = Num (1979604231811207 / 137438953472)"
  proof -
    have "to_double (15836833854489657 / 1099511627776) = Num (of_int 7918416927244828 * 2 powi (13 - 52))"
      by (rule to_double_eval) (simp_all add: round_even_def power_int_minus field_simps)
    then show ?thesis by (simp add: power_int_minus field_simps)
  qed
  show ?thesis using to_double_minus [of "15836833854489657 / 1099511627776"] pos by simp
qed

lemma dbl_interest_neg_principal: "to_double (- (1814677487644807 / 137438953472)) = Num (- (1814677487644807 / 137438953472))"
proof -
  have pos: "to_double (1814677487644807 / 137438953472) = Num (1814677487644807 / 137438953472)"
  proof -
    have "to_double (1814677487644807 / 137438953472) = Num (of_int 7258709950579228 * 2 powi (13 - 52))"
      by (rule to_double_eval) (simp_all add: round_even_def power_int_minus field_simps)
    then show ?thesis by (simp add: power_int_minus field_simps)
  qed
  show ?thesis using to_double_minus [of "1814677487644807 / 137438953472"] pos by simp
qed

lemma dbl_rate_one_percent: "to_double (1 / 100) = Num (5764607523034235 / 576460752303423488)"
proof -
  have pos: "to_double (1 / 100) = Num (5764607523034235 / 576460752303423488)"
  proof -
    have "to_double (1 / 100) = Num (of_int 5764607523034235 * 2 powi (- 7 - 52))"
      by (rule to_double_eval) (simp_all add: round_even_def power_int_minus field_simps)
    then show ?thesis by (simp add: power_int_minus field_simps)
  qed
  show ?thesis by (rule pos)
qed

lemma dbl_interest_1000: "to_double (720575940379279375 / 72057594037927936) = Num (10)"
proof -
  have pos: "to_double (720575940379279375 / 72057594037927936) = Num (10)"
  proof -
    have "to_double (720575940379279375 / 72057594037927936) = Num (of_int 5629499534213120 * 2 powi (3 - 52))"
      by (rule to_double_eval) (simp_all add: round_even_def power_int_minus field_simps)
    then show ?thesis by (simp add: power_int_minus field_simps)
  qed
  show ?thesis by (rule pos)
qed

lemma dbl_interest_1005: "to_double (5793430560649406175 / 576460752303423488) = Num (2828823515942093 / 281474976710656)"
proof -
  have pos: "to_double (5793430560649406175 / 576460752303423488) = Num (2828823515942093 / 281474976710656)"
  proof -
    have "to_double (5793430560649406175 / 576460752303423488) = Num (of_int 5657647031884186 * 2 powi (3 - 52))"
      by (rule to_double_eval) (simp_all add: round_even_def power_int_minus field_simps)
    then show ?thesis by (simp add: power_int_minus field_simps)
  qed
  show ?thesis by (rule pos)
qed

lemma dbl_principal_1005: "to_double (- (1421448632388813 / 281474976710656)) = Num (- (1421448632388813 / 281474976710656))"
proof -
  have pos: "to_double (1421448632388813 / 281474976710656) = Num (1421448632388813 / 281474976710656)"
  proof -
    have "to_double (1421448632388813 / 281474976710656) = Num (of_int 5685794529555252 * 2 powi (2 - 52))"
      by (rule to_double_eval) (simp_all add: round_even_def power_int_minus field_simps)
    then show ?thesis by (simp add: power_int_minus field_simps)
  qed
  show ?thesis using to_double_minus [of "1421448632388813 / 281474976710656"] pos by simp
qed

lemma dbl_balance_1005: "to_double (284303800226598093 / 281474976710656) = Num (4442246878540595 / 4398046511104)"
proof -
  have pos: "to_double (284303800226598093 / 281474976710656) = Num (4442246878540595 / 4398046511104)"
  proof -
    have "to_double (284303800226598093 / 281474976710656) = Num (of_int 8884493757081190 * 2 powi (9 - 52))"
      by (rule to_double_eval) (simp_all add: round_even_def power_int_minus field_simps)
    then show ?thesis by (simp add: power_int_minus field_simps)
  qed
  show ?thesis by (rule pos)
qed





section \<open>The summary and the schedule at special values\<close>

lemma zero_rate_summary_NaN:
  "calculateEMI (Num p) (Num 0) t =
     \<lparr>monthlyEmi = NaN, totalInterest = NaN, totalPayable = NaN,
      principalAmount = Num p, tenureMonths = t * 12\<rparr>"
  by (simp add: calculateEMI_def Let_def num_sub_def signed_inf_def to_double_zero to_double_one)

lemma within_rel_NaN: "within_rel tol x NaN = False"
  by (cases x) simp_all

lemma next_balance_NaN: "next_balance NaN r b = NaN"
  by (cases b; cases r) (simp_all add: next_balance_def num_sub_def)

lemma balance_after_NaN: "balance_after NaN r p (Suc k) = NaN"
  by (simp add: next_balance_NaN)

lemma new_Date_in_range:
  assumes "100 \<le> y" "0 \<le> m" "y * 12 + m \<le> 3309128"
  shows "new_Date y m = Date (y + m div 12) (m mod 12)"
proof -
  have eq: "(y + m div 12) * 12 + m mod 12 = y * 12 + m"
    by (simp add: algebra_simps)
  have lo: "(- 271821) * 12 + 4 \<le> y * 12 + m" using assms(1,2) by simp
  show ?thesis
    using assms lo unfolding new_Date_def Let_def eq by simp
qed


section \<open>Balances under a payment that covers the interest\<close>

text \<open>
  Rounding is monotone and leaves doubles unchanged, so a balance whose interest the
  payment covers is followed by one that is not larger and whose interest the payment
  covers again.
\<close>

lemma num_le_refl_Num: "num_le (Num a) (Num a)"
  by simp

lemma num_le_between:
  assumes "num_le (Num lo) x" "num_le x (Num hi)"
  obtains v where "x = Num v" "lo \<le> v" "v \<le> hi"
  using assms by (cases x) simp_all

lemma is_double_zero: "is_double 0"
  by (simp add: is_double_def to_double_zero)

lemma is_double_result: "to_double x = Num y \<Longrightarrow> is_double y"
  unfolding is_double_def by (rule to_double_idem)

lemma monthly_rate_cases:
  assumes "0 \<le> ar"
  obtains r where "0 \<le> r" "num_div (num_div (Num ar) (Num 12)) (Num 100) = Num r"
  | "num_div (num_div (Num ar) (Num 12)) (Num 100) = PInf"
proof -
  have a: "num_le (Num 0) (to_double (ar / 12))"
    using assms by (intro to_double_nonneg) simp
  show ?thesis
  proof (cases "to_double (ar / 12)")
    case (Num a)
    with a have a0: "0 \<le> a" by simp
    have b: "num_le (Num 0) (to_double (a / 100))"
      using a0 by (intro to_double_nonneg) simp
    show ?thesis
    proof (cases "to_double (a / 100)")
      case (Num r)
      with b have "0 \<le> r" by simp
      moreover have "num_div (num_div (Num ar) (Num 12)) (Num 100) = Num r"
        using \<open>to_double (ar / 12) = Num a\<close> Num by simp
      ultimately show ?thesis by (rule that(1))
    next
      case PInf
      then have "num_div (num_div (Num ar) (Num 12)) (Num 100) = PInf"
        using \<open>to_double (ar / 12) = Num a\<close> by simp
      then show ?thesis by (rule that(2))
    next
      case NInf
      with b show ?thesis by simp
    next
      case NaN
      with b show ?thesis by simp
    qed
  next
    case PInf
    then have "num_div (num_div (Num ar) (Num 12)) (Num 100) = PInf" by simp
    then show ?thesis by (rule that(2))
  next
    case NInf
    with a show ?thesis by simp
  next
    case NaN
    with a show ?thesis by simp
  qed
qed

lemma next_balance_paying:
  assumes r: "0 \<le> r" and pay: "paying e r b"
  obtains b' where "next_balance (Num e) (Num r) (Num b) = Num b'" "b' \<le> b" "paying e r b'"
proof -
  from pay have b0: "0 \<le> b" and bd: "to_double b = Num b"
    and ie: "num_le (to_double (b * r)) (Num e)"
    by (simp_all add: paying_def is_double_def)
  have "num_le (Num 0) (to_double (b * r))"
    using b0 r by (intro to_double_nonneg) simp
  from this ie obtain i where i: "to_double (b * r) = Num i" "0 \<le> i" "i \<le> e"
    by (rule num_le_between)
  have pp0: "num_le (Num 0) (to_double (e - i))"
    using i(3) by (intro to_double_nonneg) simp
  define w where "w = num_sub (Num b) (num_sub (Num e) (num_mul (Num b) (Num r)))"
  have nb: "next_balance (Num e) (Num r) (Num b) = num_max (Num 0) w"
    by (simp add: next_balance_def w_def)
  have wle: "num_le w (Num b)"
  proof (cases "to_double (e - i)")
    case (Num v)
    with pp0 have v: "0 \<le> v" by simp
    have "w = to_double (b - v)" using i(1) Num by (simp add: w_def num_sub_def)
    moreover have "num_le (to_double (b - v)) (to_double b)"
      using v by (intro to_double_mono) simp
    ultimately show ?thesis by (simp add: bd)
  next
    case PInf
    then have "w = NInf" using i(1) by (simp add: w_def num_sub_def)
    then show ?thesis by simp
  next
    case NInf
    with pp0 show ?thesis by simp
  next
    case NaN
    with pp0 show ?thesis by simp
  qed
  have wd: "is_double v" if "w = Num v" for v
  proof (cases "to_double (e - i)")
    case (Num u)
    then have "w = to_double (b - u)" using i(1) by (simp add: w_def num_sub_def)
    with that show ?thesis by (simp add: is_double_result)
  next
    case PInf
    then have "w = NInf" using i(1) by (simp add: w_def num_sub_def)
    with that show ?thesis by simp
  next
    case NInf
    with pp0 show ?thesis by simp
  next
    case NaN
    with pp0 show ?thesis by simp
  qed
  obtain b' where b': "num_max (Num 0) w = Num b'" "0 \<le> b'" "b' \<le> b" "is_double b'"
  proof (cases w)
    case (Num v)
    with wle have "v \<le> b" by simp
    moreover have "is_double (max 0 v)"
      using wd [OF Num] is_double_zero by (simp add: max_def)
    ultimately show ?thesis using Num b0 by (intro that [of "max 0 v"]) simp_all
  next
    case PInf
    with wle show ?thesis by simp
  next
    case NInf
    then show ?thesis using b0 is_double_zero by (intro that [of 0]) simp_all
  next
    case NaN
    with wle show ?thesis by simp
  qed
  have "b' * r \<le> b * r" using b'(3) r by (rule mult_right_mono)
  then have "num_le (to_double (b' * r)) (to_double (b * r))" by (rule to_double_mono)
  then have "num_le (to_double (b' * r)) (Num e)" using ie by (rule num_le_trans)
  then have "paying e r b'" using b'(2,4) by (simp add: paying_def)
  with nb b'(1,3) show ?thesis by (intro that [of b']) simp_all
qed

lemma balance_after_paying:
  assumes r: "0 \<le> r" and pay: "paying e r p"
  obtains b where "balance_after (Num e) (Num r) (Num p) k = Num b" "paying e r b"
proof -
  have "\<exists>b. balance_after (Num e) (Num r) (Num p) k = Num b \<and> paying e r b"
  proof (induction k)
    case 0
    show ?case using pay by simp
  next
    case (Suc k)
    then obtain b where b: "balance_after (Num e) (Num r) (Num p) k = Num b" "paying e r b"
      by blast
    from next_balance_paying [OF r b(2)] obtain b'
      where "next_balance (Num e) (Num r) (Num b) = Num b'" "paying e r b'" by blast
    then show ?case using b(1) by simp
  qed
  then show ?thesis using that by blast
qed

lemma balance_after_step_le:
  assumes r: "0 \<le> r" and pay: "paying e r p"
  shows "num_le (balance_after (Num e) (Num r) (Num p) (Suc k))
           (balance_after (Num e) (Num r) (Num p) k)"
proof -
  from balance_after_paying [OF r pay, of k] obtain b
    where b: "balance_after (Num e) (Num r) (Num p) k = Num b" "paying e r b" by blast
  from next_balance_paying [OF r b(2)] obtain b'
    where "next_balance (Num e) (Num r) (Num b) = Num b'" "b' \<le> b" by blast
  then show ?thesis using b(1) by simp
qed

lemma balance_after_antimono:
  assumes r: "0 \<le> r" and pay: "paying e r p" and ij: "i \<le> j"
  shows "num_le (balance_after (Num e) (Num r) (Num p) j)
           (balance_after (Num e) (Num r) (Num p) i)"
  using ij
proof (induction j)
  case 0
  then have "i = 0" by simp
  moreover from pay have "num_le (Num p) (Num p)" by simp
  ultimately show ?case by simp
next
  case (Suc j)
  show ?case
  proof (cases "i = Suc j")
    case True
    from balance_after_paying [OF r pay, of "Suc j"] obtain b
      where "balance_after (Num e) (Num r) (Num p) (Suc j) = Num b" by blast
    then show ?thesis using True by simp
  next
    case False
    with Suc.prems have "i \<le> j" by simp
    then have "num_le (balance_after (Num e) (Num r) (Num p) j)
        (balance_after (Num e) (Num r) (Num p) i)" by (rule Suc.IH)
    with balance_after_step_le [OF r pay, of j] show ?thesis by (rule num_le_trans)
  qed
qed

lemma entry_fields_paying:
  assumes r: "0 \<le> r" and pay: "paying e r b" and pay': "paying e r b'" and le: "b' \<le> b"
  shows "num_le (num_mul (Num b') (Num r)) (num_mul (Num b) (Num r))
         \<and> num_le (num_sub (Num e) (num_mul (Num b) (Num r)))
             (num_sub (Num e) (num_mul (Num b') (Num r)))"
proof -
  have i0: "num_le (Num 0) (to_double (b * r))"
    using pay r by (intro to_double_nonneg) (simp add: paying_def)
  have ie: "num_le (to_double (b * r)) (Num e)" using pay by (simp add: paying_def)
  from i0 ie obtain i where i: "to_double (b * r) = Num i" by (rule num_le_between)
  have i0': "num_le (Num 0) (to_double (b' * r))"
    using pay' r by (intro to_double_nonneg) (simp add: paying_def)
  have ie': "num_le (to_double (b' * r)) (Num e)" using pay' by (simp add: paying_def)
  from i0' ie' obtain i' where i': "to_double (b' * r) = Num i'" by (rule num_le_between)
  have "b' * r \<le> b * r" using le r by (rule mult_right_mono)
  then have m: "num_le (to_double (b' * r)) (to_double (b * r))" by (rule to_double_mono)
  then have "i' \<le> i" by (simp add: i i')
  then have "num_le (to_double (e - i)) (to_double (e - i'))"
    by (intro to_double_mono) simp
  with m show ?thesis by (simp add: i i' num_sub_def)
qed

section \<open>calculateEMI: the summary\<close>

text \<open>
  C1. At an annual rate of exactly 0 the claim asks for the payment
  \<open>principal / periodCount\<close> and a total interest of 0. The code has no branch for
  that rate: it evaluates the general formula, whose numerator is \<open>principal * 0 * 1\<close>
  and whose denominator is \<open>1 - 1\<close>, so the payment is \<open>0/0\<close>, NaN, and so are the
  total payable and the total interest. Evaluated at principal 100000, rate 0 and a
  tenure of 10 years:
\<close>

theorem calculateEMI_zero_rate:
  "calculateEMI (Num 100000) (Num 0) 10 =
     \<lparr>monthlyEmi = NaN, totalInterest = NaN, totalPayable = NaN,
      principalAmount = Num 100000, tenureMonths = 120\<rparr>"
  by (simp add: calculateEMI_def Let_def num_sub_def signed_inf_def to_double_zero to_double_one)

text \<open>
  C2, as stated, fails: the engine checks nothing. With a negative principal
  \<^verbatim>\<open>calculateEMI\<close> returns a summary of finite, negative amounts instead of an error
  (a payment of -1200.2930402930403, the double nearest to \<open>-4915200/4095\<close>), and
  \<^verbatim>\<open>generateSchedule\<close> returns its 12 entries.
\<close>

theorem engine_accepts_invalid_input:
  "calculateEMI (Num (- 1200)) (Num 1200) 1 =
     \<lparr>monthlyEmi = Num (- (5278944618163219 / 4398046511104)),
      totalInterest = Num (- (1814677487644807 / 137438953472)),
      totalPayable = Num (- (1979604231811207 / 137438953472)),
      principalAmount = Num (- 1200),
      tenureMonths = 12\<rparr>
   \<and> length (generateSchedule \<lparr>now_year = 2026, now_month = 10\<rparr>
         (Num (- 1200)) (Num 1200) 1 (Num (- (5278944618163219 / 4398046511104)))) = 12"
  by (simp add: calculateEMI_def Let_def num_sub_def generateSchedule_length dbl_simps
      dbl_emi_neg_principal dbl_payable_neg_principal dbl_interest_neg_principal)

text \<open>
  C2, amended. The engine does not validate its inputs. For every principal, rate and
  tenure, also a principal \<open>\<le> 0\<close>, a tenure \<open>\<le> 0\<close> or a rate \<open>< 0\<close>,
  \<^verbatim>\<open>calculateEMI\<close> returns a summary that echoes the principal and whose number of
  months is \<open>tenureYears * 12\<close>, and \<^verbatim>\<open>generateSchedule\<close> returns a schedule of
  \<open>max 0 (tenureYears * 12)\<close> entries. Neither has an error result.
\<close>

theorem engine_never_rejects:
  "principalAmount (calculateEMI p ar t) = p
   \<and> tenureMonths (calculateEMI p ar t) = t * 12
   \<and> int (length (generateSchedule clk p ar t e)) = max 0 (t * 12)"
  by (simp add: calculateEMI_def Let_def generateSchedule_length)

text \<open>
  C4. The claim covers every valid input, and a rate of 0 is valid. There the summary
  holds NaN in place of the payment and of both totals (the missing branch of C1), and
  NaN equals nothing: at principal 100000, rate 0 and 10 years the total payable is
  neither the payment times the number of months nor the total interest plus the
  principal.
\<close>

theorem summary_totals_zero_rate:
  "\<not> num_eq (totalPayable (calculateEMI (Num 100000) (Num 0) 10))
        (num_mul (monthlyEmi (calculateEMI (Num 100000) (Num 0) 10))
           (Num (of_int (tenureMonths (calculateEMI (Num 100000) (Num 0) 10)))))
   \<and> \<not> num_eq (totalPayable (calculateEMI (Num 100000) (Num 0) 10))
        (num_add (totalInterest (calculateEMI (Num 100000) (Num 0) 10))
           (principalAmount (calculateEMI (Num 100000) (Num 0) 10)))"
  unfolding zero_rate_summary_NaN by simp

section \<open>generateSchedule: the entries\<close>




text \<open>
  C5. The claim asks for a last balance of 0 when the generator is handed the payment
  that the formula gives for the same principal, rate and tenure, for every valid
  input. At rate 0 (valid) the code's formula gives NaN (the missing branch of C1), and
  with that payment every balance of the schedule is NaN. The schedule does have its
  \<open>tenureYears * 12\<close> entries. At principal 100000, rate 0 and 10 years:
\<close>

theorem payoff_zero_rate:
  "length (generateSchedule \<lparr>now_year = 2026, now_month = 10\<rparr> (Num 100000) (Num 0) 10
      (monthlyEmi (calculateEMI (Num 100000) (Num 0) 10))) = 120
   \<and> balance (last (generateSchedule \<lparr>now_year = 2026, now_month = 10\<rparr> (Num 100000) (Num 0) 10
        (monthlyEmi (calculateEMI (Num 100000) (Num 0) 10)))) = NaN"
proof -
  let ?S = "generateSchedule \<lparr>now_year = 2026, now_month = 10\<rparr> (Num 100000) (Num 0) 10 NaN"
  have len: "length ?S = 120" by (simp add: generateSchedule_length)
  then have ne: "?S \<noteq> []" by auto
  have "last ?S = ?S ! 119" using ne len by (simp add: last_conv_nth)
  also have "balance \<dots> = NaN"
    by (simp add: generateSchedule_nth entry_at_def next_balance_NaN)
  finally show ?thesis
    unfolding zero_rate_summary_NaN using len by simp
qed

text \<open>
  C6. The claim covers every valid input, and a rate of 0 is valid. There the
  summary's total interest is NaN (the missing branch of C1), and no sum is within a
  relative tolerance of \<open>10^-6\<close> of NaN: principal 100000, rate 0, 10 years.
\<close>

theorem roundtrip_zero_rate:
  "\<not> within_rel (1 / 10 ^ 6)
       (num_sum (map interest
          (generateSchedule \<lparr>now_year = 2026, now_month = 10\<rparr> (Num 100000) (Num 0) 10
             (monthlyEmi (calculateEMI (Num 100000) (Num 0) 10)))))
       (totalInterest (calculateEMI (Num 100000) (Num 0) 10))"
  unfolding zero_rate_summary_NaN by (simp add: within_rel_NaN)

text \<open>
  C7, as stated, fails: the payment is whatever the caller supplies, and a payment
  below the first period's interest makes the balance grow. With principal 1000, 12
  percent a year and a payment of 5, the first balance is 1005 and the second is
  1010.05 (the double nearest to it).
\<close>

theorem schedule_low_payment_balance_grows:
  "balance (generateSchedule \<lparr>now_year = 2026, now_month = 10\<rparr>
      (Num 1000) (Num 12) 1 (Num 5) ! 0) = Num 1005
   \<and> balance (generateSchedule \<lparr>now_year = 2026, now_month = 10\<rparr>
      (Num 1000) (Num 12) 1 (Num 5) ! 1) = Num (4442246878540595 / 4398046511104)
   \<and> \<not> num_le
        (balance (generateSchedule \<lparr>now_year = 2026, now_month = 10\<rparr>
           (Num 1000) (Num 12) 1 (Num 5) ! 1))
        (balance (generateSchedule \<lparr>now_year = 2026, now_month = 10\<rparr>
           (Num 1000) (Num 12) 1 (Num 5) ! 0))"
  by (simp add: generateSchedule_nth entry_at_def next_balance_def num_sub_def dbl_simps
      dbl_rate_one_percent dbl_interest_1000 dbl_interest_1005 dbl_principal_1005
      dbl_balance_1005)

text \<open>
  C7, amended. For a positive principal (a double, as every JavaScript number is), a
  rate that is not negative, a positive tenure and a payment that is at least the
  interest portion computed for the first period, the balances and the interest
  portions of the schedule never increase and the principal portions never decrease,
  from any entry to any later one.
\<close>

theorem schedule_monotone:
  assumes "0 < p" "is_double p" "0 \<le> ar" "0 < t"
    and "num_le (interest (generateSchedule clk (Num p) (Num ar) t (Num e) ! 0)) (Num e)"
    and "i \<le> j" "j < length (generateSchedule clk (Num p) (Num ar) t (Num e))"
  shows "num_le (balance (generateSchedule clk (Num p) (Num ar) t (Num e) ! j))
           (balance (generateSchedule clk (Num p) (Num ar) t (Num e) ! i))
         \<and> num_le (interest (generateSchedule clk (Num p) (Num ar) t (Num e) ! j))
             (interest (generateSchedule clk (Num p) (Num ar) t (Num e) ! i))
         \<and> num_le (principal (generateSchedule clk (Num p) (Num ar) t (Num e) ! i))
             (principal (generateSchedule clk (Num p) (Num ar) t (Num e) ! j))"
proof -
  define R where "R = num_div (num_div (Num ar) (Num 12)) (Num 100)"
  from assms(7) have j: "j < nat (t * 12)" by (simp add: generateSchedule_length)
  with assms(6) have i: "i < nat (t * 12)" by simp
  from assms(4) have z: "0 < nat (t * 12)" by simp
  have first: "num_le (num_mul (Num p) R) (Num e)"
    using assms(5) unfolding generateSchedule_nth [OF z] R_def
    by (simp add: entry_at_def)
  obtain r where r: "0 \<le> r" "R = Num r"
  proof (rule monthly_rate_cases [OF assms(3)])
    fix r assume "0 \<le> r" "num_div (num_div (Num ar) (Num 12)) (Num 100) = Num r"
    then show thesis by (intro that [of r]) (simp_all add: R_def)
  next
    assume "num_div (num_div (Num ar) (Num 12)) (Num 100) = PInf"
    then have "R = PInf" by (simp add: R_def)
    with first assms(1) show thesis by (simp add: signed_inf_def)
  qed
  have pay: "paying e r p"
    using assms(1,2) first by (simp add: paying_def r(2))
  from balance_after_paying [OF r(1) pay, of i] obtain bi
    where bi: "balance_after (Num e) (Num r) (Num p) i = Num bi" "paying e r bi" by blast
  from balance_after_paying [OF r(1) pay, of j] obtain bj
    where bj: "balance_after (Num e) (Num r) (Num p) j = Num bj" "paying e r bj" by blast
  have "num_le (balance_after (Num e) (Num r) (Num p) j)
          (balance_after (Num e) (Num r) (Num p) i)"
    using r(1) pay assms(6) by (rule balance_after_antimono)
  then have le: "bj \<le> bi" by (simp add: bi bj)
  have bal: "num_le (balance_after (Num e) (Num r) (Num p) (Suc j))
          (balance_after (Num e) (Num r) (Num p) (Suc i))"
    using r(1) pay by (rule balance_after_antimono) (simp add: assms(6))
  note f = entry_fields_paying [OF r(1) bi(2) bj(2) le]
  have Req: "num_div (num_div (Num ar) (Num 12)) (Num 100) = Num r"
    using r(2) unfolding R_def .
  show ?thesis
    unfolding generateSchedule_nth [OF i] generateSchedule_nth [OF j] Req
    using bal f by (simp add: entry_at_def bi(1) bj(1))
qed

theorem schedule_monotone_witness:
  "(0::real) < 1000 \<and> is_double 1000 \<and> (0::real) \<le> 1200 \<and> (0::int) < 1
   \<and> num_le (interest (generateSchedule \<lparr>now_year = 2026, now_month = 10\<rparr>
         (Num 1000) (Num 1200) 1 (Num 1500) ! 0)) (Num 1500)
   \<and> (0::nat) \<le> 1
   \<and> 1 < length (generateSchedule \<lparr>now_year = 2026, now_month = 10\<rparr>
         (Num 1000) (Num 1200) 1 (Num 1500))
   \<and> balance (generateSchedule \<lparr>now_year = 2026, now_month = 10\<rparr>
         (Num 1000) (Num 1200) 1 (Num 1500) ! 0) = Num 500
   \<and> balance (generateSchedule \<lparr>now_year = 2026, now_month = 10\<rparr>
         (Num 1000) (Num 1200) 1 (Num 1500) ! 1) = Num 0
   \<and> num_le (balance (generateSchedule \<lparr>now_year = 2026, now_month = 10\<rparr>
         (Num 1000) (Num 1200) 1 (Num 1500) ! 1))
        (balance (generateSchedule \<lparr>now_year = 2026, now_month = 10\<rparr>
         (Num 1000) (Num 1200) 1 (Num 1500) ! 0))"
proof -
  let ?S = "generateSchedule \<lparr>now_year = 2026, now_month = 10\<rparr>
              (Num 1000) (Num 1200) 1 (Num 1500)"
  have a: "(0::real) < 1000" and c: "(0::real) \<le> 1200" and d: "(0::int) < 1"
    and f: "(0::nat) \<le> 1" by simp_all
  have b: "is_double 1000" by (simp add: is_double_def dbl_simps)
  have h: "num_le (interest (?S ! 0)) (Num 1500)"
    by (simp add: generateSchedule_nth entry_at_def dbl_simps)
  have len: "1 < length ?S" by (simp add: generateSchedule_length)
  have v0: "balance (?S ! 0) = Num 500"
    by (simp add: generateSchedule_nth entry_at_def next_balance_def num_sub_def dbl_simps)
  have v1: "balance (?S ! 1) = Num 0"
    by (simp add: generateSchedule_nth entry_at_def next_balance_def num_sub_def dbl_simps)
  from schedule_monotone [OF a b c d h f len] a b c d h f len v0 v1
  show ?thesis by blast
qed

text \<open>
  C8, as stated, fails: \<^verbatim>\<open>generateSchedule\<close> has no start date among its parameters.
  It reads the system clock, so two calls with the same principal, rate, tenure and
  payment, made in different years, return different schedules.
\<close>

theorem schedule_depends_on_clock:
  "generateSchedule \<lparr>now_year = 2026, now_month = 10\<rparr> (Num 1200) (Num 12) 1 (Num 100) \<noteq>
   generateSchedule \<lparr>now_year = 2027, now_month = 10\<rparr> (Num 1200) (Num 12) 1 (Num 100)"
proof
  assume "generateSchedule \<lparr>now_year = 2026, now_month = 10\<rparr> (Num 1200) (Num 12) 1 (Num 100) =
          generateSchedule \<lparr>now_year = 2027, now_month = 10\<rparr> (Num 1200) (Num 12) 1 (Num 100)"
  then have "year (generateSchedule \<lparr>now_year = 2026, now_month = 10\<rparr> (Num 1200) (Num 12) 1 (Num 100) ! 0) =
             year (generateSchedule \<lparr>now_year = 2027, now_month = 10\<rparr> (Num 1200) (Num 12) 1 (Num 100) ! 0)"
    by simp
  then show False
    by (simp add: generateSchedule_nth entry_at_def new_Date_def)
qed

text \<open>
  C8, amended. The generator takes principal, rate, tenure and payment, and reads the
  current year and month from the system clock. The label of period \<open>i\<close> (the entry of
  index \<open>i - 1\<close>) is the clock's month plus \<open>i\<close> months, with the 12-month carry into
  the year, for a clock year of at least 100 and labels within the range of
  \<^verbatim>\<open>Date\<close>. The payment, principal portion, interest portion and balance of every
  entry are the same whatever the clock reads.
\<close>

theorem schedule_calendar_labels:
  assumes "i < length (generateSchedule clk p ar t e)"
    and "100 \<le> now_year clk" "0 \<le> now_month clk"
    and "now_year clk * 12 + now_month clk + t * 12 \<le> 3309128"
  shows "month (generateSchedule clk p ar t e ! i) =
           Num (of_int ((now_month clk + (int i + 1)) mod 12 + 1))
         \<and> year (generateSchedule clk p ar t e ! i) =
             Num (of_int (now_year clk + (now_month clk + (int i + 1)) div 12))
         \<and> emi (generateSchedule clk' p ar t e ! i) = emi (generateSchedule clk p ar t e ! i)
         \<and> principal (generateSchedule clk' p ar t e ! i) =
             principal (generateSchedule clk p ar t e ! i)
         \<and> interest (generateSchedule clk' p ar t e ! i) =
             interest (generateSchedule clk p ar t e ! i)
         \<and> balance (generateSchedule clk' p ar t e ! i) =
             balance (generateSchedule clk p ar t e ! i)"
proof -
  from assms(1) have i: "i < nat (t * 12)" by (simp add: generateSchedule_length)
  then have "int i + 1 \<le> t * 12" by simp
  then have hi: "now_year clk * 12 + (now_month clk + (1 + int i)) \<le> 3309128"
    using assms(4) by simp
  have lo: "0 \<le> now_month clk + (1 + int i)" using assms(3) by simp
  have d: "new_Date (now_year clk) (now_month clk + (1 + int i)) =
        Date (now_year clk + (now_month clk + (1 + int i)) div 12)
          ((now_month clk + (1 + int i)) mod 12)"
    by (rule new_Date_in_range [OF assms(2) lo hi])
  define mm where "mm = (now_month clk + (1 + int i)) mod 12"
  have "0 \<le> mm" "mm < 12" by (simp_all add: mm_def)
  then have "\<bar>mm + 1\<bar> < 2 ^ 53" by simp
  from to_double_int [OF this]
  have m1: "to_double (1 + of_int mm) = Num (1 + of_int mm)" by (simp add: add.commute)
  show ?thesis
    unfolding generateSchedule_nth [OF i]
    using m1 by (simp add: entry_at_def d add.commute mm_def)
qed

theorem schedule_calendar_labels_witness:
  "0 < length (generateSchedule \<lparr>now_year = 2026, now_month = 10\<rparr> (Num 1200) (Num 12) 1 (Num 100))
   \<and> month (generateSchedule \<lparr>now_year = 2026, now_month = 10\<rparr> (Num 1200) (Num 12) 1 (Num 100) ! 0)
       = Num 12
   \<and> year (generateSchedule \<lparr>now_year = 2026, now_month = 10\<rparr> (Num 1200) (Num 12) 1 (Num 100) ! 0)
       = Num 2026"
proof -
  have len: "0 < length (generateSchedule \<lparr>now_year = 2026, now_month = 10\<rparr>
                 (Num 1200) (Num 12) 1 (Num 100))"
    by (simp add: generateSchedule_length)
  have a: "100 \<le> now_year \<lparr>now_year = 2026, now_month = 10\<rparr>"
    and b: "0 \<le> now_month \<lparr>now_year = 2026, now_month = 10\<rparr>"
    and c: "now_year \<lparr>now_year = 2026, now_month = 10\<rparr> * 12
            + now_month \<lparr>now_year = 2026, now_month = 10\<rparr> + 1 * 12 \<le> 3309128"
    by simp_all
  from schedule_calendar_labels [OF len a b c] len show ?thesis by simp
qed

text \<open>
  C9. Every entry of the schedule carries, in its \<open>emi\<close> field, exactly the payment the
  caller supplied, whatever the inputs are: the generator copies the value and never
  recomputes it from principal, rate and tenure.
\<close>

theorem schedule_emi_is_supplied:
  "i < length (generateSchedule clk p ar t e) \<Longrightarrow> emi (generateSchedule clk p ar t e ! i) = e"
  by (simp add: generateSchedule_length generateSchedule_nth entry_at_def)

theorem schedule_emi_is_supplied_witness:
  "0 < length (generateSchedule \<lparr>now_year = 2026, now_month = 10\<rparr> (Num 1200) (Num 12) 1 (Num 7))
   \<and> emi (generateSchedule \<lparr>now_year = 2026, now_month = 10\<rparr> (Num 1200) (Num 12) 1 (Num 7) ! 0)
       = Num 7"
proof -
  have len: "0 < length (generateSchedule \<lparr>now_year = 2026, now_month = 10\<rparr>
                 (Num 1200) (Num 12) 1 (Num 7))"
    by (simp add: generateSchedule_length)
  from schedule_emi_is_supplied [OF len] len show ?thesis by simp
qed




end
